theory Spec2Isabelle
  imports Complex_Main "HOL-Library.Finite_Map"
begin

section \<open>The frequency counter cache (event-schema/counter_manager.go)\<close>

text \<open>
  The package variable \<open>countersCache\<close> is a Go map from schema hash to a bucket, and a
  bucket is a Go map from field key to a pointer to a \<open>FrequencyCounter\<close>. Go maps are
  finite, so both levels are finite maps. The struct \<open>FrequencyCounter\<close>, its
  constructors \<open>NewFrequencyCounter\<close> and \<open>NewPeristedFrequencyCounter\<close>, its field
  \<open>Name\<close> and its method \<open>ItemsAboveThreshold\<close> are declared in a file of the package
  that is not part of the sources at hand: the type of counter references is the type
  variable \<open>'fc\<close>, and those four are parameters of the functions that call them. A
  lookup that finds no entry yields the nil pointer in Go and \<open>None\<close> here.

  A bucket is shared by reference between the cache and the local variable
  \<open>schemaVersionCounters\<close>; the model writes the bucket back into the cache wherever
  the source mutates it through the local variable.
\<close>

type_synonym 'fc bucket = "(string, 'fc) fmap"

type_synonym 'fc cache = "(string, 'fc bucket) fmap"

text \<open>\<open>init()\<close>: the cache starts as an empty, non-nil map.\<close>

definition init_cache :: "'fc cache" where
  "init_cache = fmempty"

text \<open>\<open>len(m)\<close> of a Go map, as a Go \<open>int\<close>.\<close>

definition len :: "('k, 'v) fmap \<Rightarrow> int" where
  "len m = int (fcard (fmdom m))"

text \<open>
  The value of \<open>countersCache[schemaHash]\<close> as the loops below see it: an absent bucket
  reads as the nil map, which has no entries.
\<close>

definition bucket_of :: "'fc cache \<Rightarrow> string \<Rightarrow> 'fc bucket" where
  "bucket_of countersCache schemaHash =
     (case fmlookup countersCache schemaHash of None \<Rightarrow> fmempty | Some m \<Rightarrow> m)"

subsection \<open>Iteration over a Go map\<close>

text \<open>
  \<open>for k := range m\<close> yields every key of \<open>m\<close> once, in an order the language leaves
  unspecified and that may differ from one loop to the next. The order taken by one
  execution of a loop is an extra argument \<open>ks\<close> of the model; \<open>range_order m ks\<close> says
  that \<open>ks\<close> is an order the loop can take.
\<close>

definition range_order :: "('k, 'v) fmap \<Rightarrow> 'k list \<Rightarrow> bool" where
  "range_order m ks \<longleftrightarrow> distinct ks \<and> fset_of_list ks = fmdom m"

subsection \<open>getFrequencyCounterBounded\<close>

text \<open>
  The trimming loop (lines 79 to 86):
  \<^verbatim>\<open>
  for k := range schemaVersionCounters {
      if toDelete > 0 { delete(schemaVersionCounters, k); toDelete-- } else { break }
  }
  \<close>
  Only the key just yielded is deleted, so the keys yielded are those of \<open>ks\<close>, in
  order, until the loop breaks or \<open>ks\<close> is exhausted.
\<close>

fun trim :: "'k list \<Rightarrow> int \<Rightarrow> ('k, 'v) fmap \<Rightarrow> ('k, 'v) fmap" where
  "trim [] toDelete m = m"
| "trim (k # ks) toDelete m =
     (if toDelete > 0 then trim ks (toDelete - 1) (fmdrop k m) else m)"

text \<open>
  The function returns the counter pointer (\<open>None\<close> for nil) and leaves the cache
  updated. \<open>ks\<close> is the order the trimming loop takes over the bucket, should the loop
  run. \<open>bound\<close> is a Go \<open>int\<close>, so it may be negative. A map has fewer than \<open>2 ^ 63\<close>
  entries, so \<open>bound - len\<close> and \<open>-1 * diff\<close> cannot wrap around when \<open>0 \<le> bound\<close>,
  nor at the bound \<open>-1\<close>; they are computed on \<open>int\<close>. What is proved below about the
  sizes compared assumes \<open>0 \<le> bound\<close>, or is evaluated at \<open>-1\<close>.
\<close>

definition getFrequencyCounterBounded ::
  "(string \<Rightarrow> 'fc) \<Rightarrow> string list \<Rightarrow> string \<Rightarrow> string \<Rightarrow> int \<Rightarrow> 'fc cache
     \<Rightarrow> 'fc option \<times> 'fc cache" where
  "getFrequencyCounterBounded NewFrequencyCounter ks schemaHash key bound countersCache =
     (let schemaVersionCounters = bucket_of countersCache schemaHash;
          diff = bound - len schemaVersionCounters
      in if diff = 0 then
           (fmlookup schemaVersionCounters key,
            fmupd schemaHash schemaVersionCounters countersCache)
         else if diff < 0 then
           (let trimmed = trim ks (-1 * diff) schemaVersionCounters
            in (fmlookup trimmed key, fmupd schemaHash trimmed countersCache))
         else
           (case fmlookup schemaVersionCounters key of
              Some frequencyCounter \<Rightarrow>
                (Some frequencyCounter,
                 fmupd schemaHash schemaVersionCounters countersCache)
            | None \<Rightarrow>
                (let frequencyCounter = NewFrequencyCounter key
                 in (Some frequencyCounter,
                     fmupd schemaHash (fmupd key frequencyCounter schemaVersionCounters)
                       countersCache))))"

text \<open>
  \<open>getFrequencyCounter\<close> calls it with the package variable \<open>frequencyCounterLimit\<close>,
  taken here as the argument \<open>limit\<close>.
\<close>

definition getFrequencyCounter ::
  "int \<Rightarrow> (string \<Rightarrow> 'fc) \<Rightarrow> string list \<Rightarrow> string \<Rightarrow> string \<Rightarrow> 'fc cache
     \<Rightarrow> 'fc option \<times> 'fc cache" where
  "getFrequencyCounter limit NewFrequencyCounter ks schemaHash key countersCache =
     getFrequencyCounterBounded NewFrequencyCounter ks schemaHash key limit countersCache"

subsection \<open>populateFrequencyCountersBounded\<close>

text \<open>
  The slice \<open>frequencyCounters\<close> holds pointers, and \<open>fc.Name\<close> on a nil pointer
  panics: an element of the slice is \<open>None\<close> for nil, and the panic is the result
  \<open>Inl NilPointerDereference\<close>. The loop (lines 23 to 32) carries \<open>count\<close> and the map
  under construction; it stops at the first element reached with \<open>count >= bound\<close>.
\<close>

datatype panic = NilPointerDereference

fun populate_loop ::
  "('fc \<Rightarrow> string) \<Rightarrow> ('fc \<Rightarrow> 'fc) \<Rightarrow> 'fc option list \<Rightarrow> int \<Rightarrow> int \<Rightarrow> 'fc bucket
     \<Rightarrow> panic + 'fc bucket" where
  "populate_loop Name NewPeristedFrequencyCounter [] count bound frequencyCountersMap =
     Inr frequencyCountersMap"
| "populate_loop Name NewPeristedFrequencyCounter (p # frequencyCounters) count bound
     frequencyCountersMap =
     (if count \<ge> bound then Inr frequencyCountersMap
      else
        (case p of
           None \<Rightarrow> Inl NilPointerDereference
         | Some fc \<Rightarrow>
             populate_loop Name NewPeristedFrequencyCounter frequencyCounters (count + 1) bound
               (fmupd (Name fc) (NewPeristedFrequencyCounter fc) frequencyCountersMap)))"

definition populateFrequencyCountersBounded ::
  "('fc \<Rightarrow> string) \<Rightarrow> ('fc \<Rightarrow> 'fc) \<Rightarrow> string \<Rightarrow> 'fc option list \<Rightarrow> int \<Rightarrow> 'fc cache
     \<Rightarrow> panic + 'fc cache" where
  "populateFrequencyCountersBounded Name NewPeristedFrequencyCounter schemaHash
     frequencyCounters bound countersCache =
     (case populate_loop Name NewPeristedFrequencyCounter frequencyCounters 0 bound fmempty of
        Inl e \<Rightarrow> Inl e
      | Inr frequencyCountersMap \<Rightarrow>
          Inr (fmupd schemaHash frequencyCountersMap countersCache))"

text \<open>
  The bucket the specification describes for a reload: the given counters, each wrapped
  by the persisted-counter constructor and stored under its name, a later counter of
  the list replacing an earlier one of the same name. It is compared below with what
  the loop builds from the first \<open>bound\<close> counters.
\<close>

definition bucket_from_persisted ::
  "('fc \<Rightarrow> string) \<Rightarrow> ('fc \<Rightarrow> 'fc) \<Rightarrow> 'fc list \<Rightarrow> 'fc bucket" where
  "bucket_from_persisted Name NewPeristedFrequencyCounter fcs =
     fold (\<lambda>fc m. fmupd (Name fc) (NewPeristedFrequencyCounter fc) m) fcs fmempty"

subsection \<open>getSchemaVersionCounters\<close>

text \<open>
  \<open>Entry\<close> is the element type of the slice that \<open>ItemsAboveThreshold\<close> returns; the
  function reads its fields \<open>Key\<close> and \<open>Frequency\<close>. Frequencies are \<open>float64\<close> in the
  source. The function only compares a frequency with 1 and stores either it or the
  constant 1.0, both exact on floats, so frequencies are modelled as real numbers; a
  NaN, which no comparison orders, has no counterpart here.
\<close>

record Entry =
  Key :: string
  Frequency :: real

record CounterItem =
  Value :: string
  Frequency :: real

text \<open>The inner loop (lines 114 to 122) appends one item per entry.\<close>

fun counter_items_loop :: "Entry list \<Rightarrow> CounterItem list \<Rightarrow> CounterItem list" where
  "counter_items_loop [] counterItems = counterItems"
| "counter_items_loop (entry # entries) counterItems =
     (let freq = Entry.Frequency entry;
          freq = (if freq > 1 then 1.0 else freq)
      in counter_items_loop entries
           (counterItems @ [\<lparr>Value = Key entry, Frequency = freq\<rparr>]))"

text \<open>
  The outer loop (lines 110 to 127) ranges over the bucket, in the order \<open>ks\<close>. A key
  of \<open>ks\<close> that the bucket does not hold is not yielded by \<open>range\<close>; the loop skips it.
\<close>

fun schema_version_counters_loop ::
  "('fc \<Rightarrow> Entry list) \<Rightarrow> 'fc bucket \<Rightarrow> string list \<Rightarrow> (string, CounterItem list) fmap
     \<Rightarrow> (string, CounterItem list) fmap" where
  "schema_version_counters_loop ItemsAboveThreshold schemaVersionCounters [] counters =
     counters"
| "schema_version_counters_loop ItemsAboveThreshold schemaVersionCounters (key # ks) counters =
     (case fmlookup schemaVersionCounters key of
        None \<Rightarrow>
          schema_version_counters_loop ItemsAboveThreshold schemaVersionCounters ks counters
      | Some fc \<Rightarrow>
          (let entries = ItemsAboveThreshold fc;
               counterItems = counter_items_loop entries []
           in schema_version_counters_loop ItemsAboveThreshold schemaVersionCounters ks
                (if length counterItems > 0 then fmupd key counterItems counters
                 else counters)))"

definition getSchemaVersionCounters ::
  "('fc \<Rightarrow> Entry list) \<Rightarrow> string list \<Rightarrow> string \<Rightarrow> 'fc cache
     \<Rightarrow> (string, CounterItem list) fmap" where
  "getSchemaVersionCounters ItemsAboveThreshold ks schemaHash countersCache =
     schema_version_counters_loop ItemsAboveThreshold (bucket_of countersCache schemaHash) ks
       fmempty"

text \<open>An entry as the specification reports it: the value, the frequency capped at 1.\<close>

definition capped :: "Entry \<Rightarrow> CounterItem" where
  "capped entry = \<lparr>Value = Key entry, Frequency = min 1 (Entry.Frequency entry)\<rparr>"

section \<open>Statement execution (warehouse/postgres/postgresQueryBuilder.go)\<close>

text \<open>
  A \<open>QueryExecution\<close> holds a transaction handle and a pooled handle, each a pointer
  that may be nil (\<open>None\<close>), the query and the flag. The database behind the handles is
  outside the program: \<open>sql_driver\<close> gives what \<open>Query\<close> and \<open>Exec\<close> answer on each
  handle. \<open>Query\<close> answers an error or the rows, a row being what \<open>Scan\<close> gives for
  it, an error or the scanned string; \<open>Exec\<close> answers the pair of a result (nil is
  \<open>None\<close>) and an error (nil is \<open>None\<close>).
\<close>

record ('tx, 'db) QueryExecution =
  txn :: "'tx option"
  db :: "'db option"
  query :: string
  enableWithQueryPlan :: bool

record ('tx, 'db, 'e, 'res) sql_driver =
  txnQuery :: "'tx \<Rightarrow> string \<Rightarrow> 'e + ('e + string) list"
  dbQuery :: "'db \<Rightarrow> string \<Rightarrow> 'e + ('e + string) list"
  txnExec :: "'tx \<Rightarrow> string \<Rightarrow> 'res option \<times> 'e option"
  dbExec :: "'db \<Rightarrow> string \<Rightarrow> 'res option \<times> 'e option"

text \<open>
  The errors the function returns: one handed on from the database unchanged, and the
  three it builds with \<open>fmt.Errorf\<close>, each carrying what its message is built from.
\<close>

datatype 'e error =
    FromDriver 'e
  | BothNil string
  | WhileHandlingTransaction string 'e
  | WhileProcessing 'e

text \<open>What the function does to the outside, in order.\<close>

datatype ('tx, 'db) call =
    TxnQuery 'tx string
  | DbQuery 'db string
  | TxnExec 'tx string
  | DbExec 'db string
  | LoggerInfof string "string list"
  | RowsClose

text \<open>Lines 27 to 34: the query goes to the transaction if there is one, else to the pool.\<close>

definition run_query ::
  "('tx, 'db, 'e, 'res) sql_driver \<Rightarrow> ('tx, 'db) QueryExecution \<Rightarrow> string
     \<Rightarrow> (('tx, 'db) call \<times> ('e + ('e + string) list)) option" where
  "run_query d e sqlStatement =
     (case txn e of
        Some t \<Rightarrow> Some (TxnQuery t sqlStatement, txnQuery d t sqlStatement)
      | None \<Rightarrow>
          (case db e of
             Some p \<Rightarrow> Some (DbQuery p sqlStatement, dbQuery d p sqlStatement)
           | None \<Rightarrow> None))"

text \<open>Lines 42 to 49: the rows are scanned in order; the first failing \<open>Scan\<close> ends the loop.\<close>

fun scan_rows :: "('e + string) list \<Rightarrow> string list \<Rightarrow> 'e + string list" where
  "scan_rows [] response = Inr response"
| "scan_rows (r # rows) response =
     (case r of
        Inl err \<Rightarrow> Inl err
      | Inr s \<Rightarrow> scan_rows rows (response @ [s]))"

text \<open>Lines 53 to 61: the statement is executed, on the transaction if there is one.\<close>

definition run_exec ::
  "('tx, 'db, 'e, 'res) sql_driver \<Rightarrow> ('tx, 'db) QueryExecution \<Rightarrow> string
     \<Rightarrow> ('res option \<times> 'e error option) \<times> ('tx, 'db) call list" where
  "run_exec d e sqlStatement =
     (case txn e of
        Some t \<Rightarrow>
          ((fst (txnExec d t sqlStatement), map_option FromDriver (snd (txnExec d t sqlStatement))),
           [TxnExec t sqlStatement])
      | None \<Rightarrow>
          (case db e of
             Some p \<Rightarrow>
               ((fst (dbExec d p sqlStatement), map_option FromDriver (snd (dbExec d p sqlStatement))),
                [DbExec p sqlStatement])
           | None \<Rightarrow> ((None, Some (BothNil sqlStatement)), [])))"

text \<open>
  The function returns the named results \<open>(result, err)\<close>, and the model adds the calls
  made. With the flag set, line 24 assigns \<open>"EXPLAIN " + e.query\<close> to the variable
  \<open>sqlStatement\<close> declared at line 21, and lines 53 to 61 read that same variable. The
  deferred \<open>rows.Close()\<close> runs last on every path that got rows.
\<close>

definition handleQueryExecution ::
  "('tx, 'db, 'e, 'res) sql_driver \<Rightarrow> ('tx, 'db) QueryExecution
     \<Rightarrow> ('res option \<times> 'e error option) \<times> ('tx, 'db) call list" where
  "handleQueryExecution d e =
     (if enableWithQueryPlan e then
        (let sqlStatement = ''EXPLAIN '' @ query e
         in case run_query d e sqlStatement of
              None \<Rightarrow> ((None, Some (BothNil sqlStatement)), [])
            | Some (c, Inl err) \<Rightarrow>
                ((None, Some (WhileHandlingTransaction sqlStatement err)), [c])
            | Some (c, Inr rows) \<Rightarrow>
                (case scan_rows rows [] of
                   Inl err \<Rightarrow> ((None, Some (WhileProcessing err)), [c, RowsClose])
                 | Inr response \<Rightarrow>
                     (fst (run_exec d e sqlStatement),
                      [c, LoggerInfof sqlStatement response]
                        @ snd (run_exec d e sqlStatement) @ [RowsClose])))
      else run_exec d e (query e))"

text \<open>The statements handed to \<open>Exec\<close>, in order, among the calls made.\<close>

fun executed :: "('tx, 'db) call list \<Rightarrow> string list" where
  "executed [] = []"
| "executed (TxnExec t s # cs) = s # executed cs"
| "executed (DbExec p s # cs) = s # executed cs"
| "executed (c # cs) = executed cs"

section \<open>What the absent method promises, and concrete inputs\<close>

text \<open>
  Modelled from the spec: the method \<open>ItemsAboveThreshold\<close> of \<open>FrequencyCounter\<close> is not
  in the sources at hand. The specification describes it as yielding the entries above a
  fixed reporting threshold, the threshold being a float in (0,1).
  \<open>above_threshold threshold f\<close> says that \<open>f\<close> behaves so for \<open>threshold\<close>.
\<close>

definition above_threshold :: "real \<Rightarrow> ('fc \<Rightarrow> Entry list) \<Rightarrow> bool" where
  "above_threshold threshold ItemsAboveThreshold \<longleftrightarrow>
     0 < threshold \<and> threshold < 1 \<and>
     (\<forall>fc. list_all (\<lambda>entry. threshold < Entry.Frequency entry) (ItemsAboveThreshold fc))"

text \<open>
  A counter that is either busy or quiet: the busy one reports two values, one of them
  with a frequency above 1, the quiet one reports nothing.
\<close>

definition busy_or_quiet :: "bool \<Rightarrow> Entry list" where
  "busy_or_quiet fc =
     (if fc then [\<lparr>Key = ''v'', Frequency = 3 / 2\<rparr>, \<lparr>Key = ''w'', Frequency = 1 / 4\<rparr>] else [])"

text \<open>
  A database that rejects every \<open>Query\<close>, as PostgreSQL rejects \<open>EXPLAIN\<close> in front of
  a statement it cannot explain, and accepts every \<open>Exec\<close>.
\<close>

definition explain_rejected :: "(nat, nat, string, nat) sql_driver" where
  "explain_rejected =
     \<lparr>txnQuery = (\<lambda>t s. Inl ''syntax error''), dbQuery = (\<lambda>p s. Inl ''syntax error''),
      txnExec = (\<lambda>t s. (Some 0, None)), dbExec = (\<lambda>p s. (Some 0, None))\<rparr>"

section \<open>Auxiliary facts\<close>

subsection \<open>Sizes, buckets and the trimming loop\<close>

lemma len_fmempty: "len fmempty = 0"
  by (simp add: len_def)

lemma len_fmupd_le: "len (fmupd k v m) \<le> len m + 1"
  by (simp add: len_def fcard_finsert_if)

lemma bucket_of_fmupd: "bucket_of (fmupd h m c) h' = (if h = h' then m else bucket_of c h')"
  by (simp add: bucket_of_def)

lemma fmupd_bucket_of: "fmlookup c h = Some m \<Longrightarrow> fmupd h (bucket_of c h) c = c"
  by (rule fmap_ext) (auto simp: bucket_of_def)

lemma bucket_of_init_cache: "bucket_of init_cache h = fmempty"
  by (simp add: bucket_of_def init_cache_def)

lemma trim_eq: "trim ks n m = fmdrop_fset (fset_of_list (take (nat n) ks)) m"
proof (induction ks arbitrary: n m)
  case Nil
  then show ?case by simp
next
  case (Cons k ks)
  show ?case
  proof (cases "n > 0")
    case True
    then have "nat n = Suc (nat (n - 1))" by simp
    then show ?thesis using True Cons.IH[of "n - 1" "fmdrop k m"] by simp
  next
    case False
    then show ?thesis by simp
  qed
qed

lemma range_order_length: "range_order m ks \<Longrightarrow> int (length ks) = len m"
  by (metis range_order_def len_def fcard.rep_eq distinct_card fset_of_list.rep_eq)

lemma fcard_take:
  assumes "distinct ks" "n \<le> length ks"
  shows "fcard (fset_of_list (take n ks)) = n"
  using assms by (simp add: fcard.rep_eq fset_of_list.rep_eq distinct_card)

lemma take_fsubset: "range_order m ks \<Longrightarrow> fset_of_list (take n ks) |\<subseteq>| fmdom m"
  by (metis range_order_def fset_of_list_subset set_take_subset)

lemma len_trim:
  assumes "range_order m ks" "0 \<le> n" "n \<le> len m"
  shows "len (trim ks n m) = len m - n"
proof -
  let ?A = "fset_of_list (take (nat n) ks)"
  have "nat n \<le> length ks"
    using range_order_length[OF assms(1)] assms(2,3) by simp
  then have cA: "fcard ?A = nat n"
    using assms(1) by (simp add: fcard_take range_order_def)
  have "fcard (fmdom m |-| ?A) = fcard (fmdom m) - fcard ?A"
    using take_fsubset[OF assms(1)] by (rule fcard_funion_fsubset)
  then show ?thesis
    using cA assms(2,3) by (simp add: trim_eq len_def)
qed

lemma trim_all:
  assumes "range_order m ks" "len m \<le> n"
  shows "trim ks n m = fmempty"
proof -
  have "length ks \<le> nat n"
    using range_order_length[OF assms(1)] assms(2) by simp
  then have "fset_of_list (take (nat n) ks) = fmdom m"
    using assms(1) by (simp add: range_order_def)
  then show ?thesis by (simp add: trim_eq)
qed

lemma bucket_after_get:
  "bucket_of (snd (getFrequencyCounterBounded newFC ks h k bound c)) h =
     (let m = bucket_of c h in
      if bound = len m then m
      else if bound < len m then trim ks (len m - bound) m
      else (case fmlookup m k of Some x \<Rightarrow> m | None \<Rightarrow> fmupd k (newFC k) m))"
  by (simp add: getFrequencyCounterBounded_def Let_def bucket_of_fmupd split: option.split)

lemma result_of_get:
  "fst (getFrequencyCounterBounded newFC ks h k bound c) =
     (let m = bucket_of c h in
      if bound = len m then fmlookup m k
      else if bound < len m then fmlookup (trim ks (len m - bound) m) k
      else (case fmlookup m k of Some x \<Rightarrow> Some x | None \<Rightarrow> Some (newFC k)))"
  by (simp add: getFrequencyCounterBounded_def Let_def split: option.split)

subsection \<open>The reload loop\<close>

lemma populate_loop_len:
  "populate_loop Name NewP fcs count bound m = Inr m' \<Longrightarrow> count \<le> bound \<Longrightarrow>
     len m \<le> count \<Longrightarrow> len m' \<le> bound"
proof (induction fcs arbitrary: count m)
  case Nil
  then show ?case by simp
next
  case (Cons p fcs)
  show ?case
  proof (cases "count \<ge> bound")
    case True
    with Cons.prems show ?thesis by simp
  next
    case False
    with Cons.prems obtain fc where p: "p = Some fc"
      by (cases p) auto
    let ?m = "fmupd (Name fc) (NewP fc) m"
    have run: "populate_loop Name NewP fcs (count + 1) bound ?m = Inr m'"
      using Cons.prems(1) False p by simp
    have "len ?m \<le> count + 1"
      using len_fmupd_le[of "Name fc" "NewP fc" m] Cons.prems(3) by linarith
    with Cons.IH[OF run] False show ?thesis by simp
  qed
qed

lemma populate_loop_fold:
  "take (nat (bound - count)) fcs = map Some xs \<Longrightarrow>
     populate_loop Name NewP fcs count bound m =
       Inr (fold (\<lambda>fc m. fmupd (Name fc) (NewP fc) m) xs m)"
proof (induction fcs arbitrary: count m xs)
  case Nil
  then show ?case by simp
next
  case (Cons p fcs)
  show ?case
  proof (cases "count \<ge> bound")
    case True
    with Cons.prems show ?thesis by simp
  next
    case False
    then have n: "nat (bound - count) = Suc (nat (bound - (count + 1)))" by simp
    with Cons.prems obtain fc ys where p: "p = Some fc" and xs: "xs = fc # ys"
      and rest: "take (nat (bound - (count + 1))) fcs = map Some ys"
      by (cases xs) auto
    show ?thesis
      using False p xs Cons.IH[OF rest] by simp
  qed
qed

lemma populate_loop_nil:
  "None \<in> set (take (nat (bound - count)) fcs) \<Longrightarrow>
     populate_loop Name NewP fcs count bound m = Inl NilPointerDereference"
proof (induction fcs arbitrary: count m)
  case Nil
  then show ?case by simp
next
  case (Cons p fcs)
  show ?case
  proof (cases "count \<ge> bound")
    case True
    with Cons.prems show ?thesis by simp
  next
    case False
    then have n: "nat (bound - count) = Suc (nat (bound - (count + 1)))" by simp
    show ?thesis
    proof (cases p)
      case None
      with False show ?thesis by simp
    next
      case (Some fc)
      with Cons.prems n have "None \<in> set (take (nat (bound - (count + 1))) fcs)" by simp
      from Cons.IH[OF this] False Some show ?thesis by simp
    qed
  qed
qed

lemma fold_fmupd_lookup:
  "fmlookup (fold (\<lambda>fc m. fmupd (Name fc) (NewP fc) m) fcs m) k =
     (case map_of (rev (map (\<lambda>fc. (Name fc, NewP fc)) fcs)) k of
        None \<Rightarrow> fmlookup m k
      | Some v \<Rightarrow> Some v)"
proof (induction fcs arbitrary: m)
  case Nil
  then show ?case by simp
next
  case (Cons fc fcs)
  show ?case
    by (simp add: Cons.IH map_add_def split: option.split)
qed

lemma fold_fmupd_dom:
  "fmdom (fold (\<lambda>fc m. fmupd (Name fc) (NewP fc) m) fcs m) =
     fset_of_list (map Name fcs) |\<union>| fmdom m"
  by (induction fcs arbitrary: m) auto

lemma bucket_from_persisted_lookup:
  "fmlookup (bucket_from_persisted Name NewP fcs) k =
     map_of (rev (map (\<lambda>fc. (Name fc, NewP fc)) fcs)) k"
  by (simp add: bucket_from_persisted_def fold_fmupd_lookup split: option.split)

lemma bucket_from_persisted_dom:
  "fmdom (bucket_from_persisted Name NewP fcs) = fset_of_list (map Name fcs)"
  by (simp add: bucket_from_persisted_def fold_fmupd_dom)

lemma bucket_from_persisted_value:
  assumes "fmlookup (bucket_from_persisted Name NewP fcs) k = Some v"
  shows "\<exists>fc \<in> set fcs. Name fc = k \<and> v = NewP fc"
proof -
  from assms have "(k, v) \<in> set (rev (map (\<lambda>fc. (Name fc, NewP fc)) fcs))"
    by (simp only: bucket_from_persisted_lookup map_of_SomeD)
  then show ?thesis by auto
qed

subsection \<open>The reporting loops\<close>

lemma counter_items_loop_eq: "counter_items_loop entries acc = acc @ map capped entries"
  by (induction entries arbitrary: acc) (simp_all add: capped_def Let_def min_def)

lemma schema_version_counters_loop_lookup:
  "fmlookup (schema_version_counters_loop IAT m ks acc) key =
     (if key \<in> set ks then
        (case fmlookup m key of
           None \<Rightarrow> fmlookup acc key
         | Some fc \<Rightarrow> if IAT fc = [] then fmlookup acc key else Some (map capped (IAT fc)))
      else fmlookup acc key)"
proof (induction ks arbitrary: acc)
  case Nil
  then show ?case by simp
next
  case (Cons k ks)
  show ?case
    by (cases "fmlookup m k") (auto simp: Cons.IH counter_items_loop_eq Let_def split: option.split)
qed

lemma capped_Frequency: "CounterItem.Frequency (capped e) = min 1 (Entry.Frequency e)"
  by (simp add: capped_def)

subsection \<open>Statement execution\<close>

lemma run_exec_both_nil:
  "txn e = None \<Longrightarrow> db e = None \<Longrightarrow> run_exec d e s = ((None, Some (BothNil s)), [])"
  by (simp add: run_exec_def)

lemma run_query_both_nil: "txn e = None \<Longrightarrow> db e = None \<Longrightarrow> run_query d e s = None"
  by (simp add: run_query_def)



lemma executed_run_exec:
  "run_query d e s' = Some (c, answer) \<Longrightarrow> executed (snd (run_exec d e s)) = [s]"
  by (auto simp: run_query_def run_exec_def split: option.splits)

section \<open>The claims\<close>

subsection \<open>C1: the bound on a bucket\<close>

text \<open>
  Claim C1, amended. After any call of \<open>getFrequencyCounterBounded\<close> or of
  \<open>populateFrequencyCountersBounded\<close> with a bound \<open>b \<ge> 0\<close>, the bucket of the schema
  hash holds at most \<open>b\<close> counters, whatever it held before: after the lookup, whatever
  order the trimming loop takes, and after the reload, whenever it returns. A bucket
  found above the bound is therefore back within it when the call ends.
\<close>

theorem bucket_within_bound:
  assumes "0 \<le> b"
  shows "(range_order (bucket_of c h) ks \<longrightarrow>
            len (bucket_of (snd (getFrequencyCounterBounded newFC ks h k b c)) h) \<le> b) \<and>
         (populateFrequencyCountersBounded Name NewP h fcs b c = Inr c' \<longrightarrow>
            len (bucket_of c' h) \<le> b)"
proof (intro conjI impI)
  assume ro: "range_order (bucket_of c h) ks"
  let ?m = "bucket_of c h"
  consider (eq) "b = len ?m" | (over) "b < len ?m" | (under) "len ?m < b"
    by linarith
  then show "len (bucket_of (snd (getFrequencyCounterBounded newFC ks h k b c)) h) \<le> b"
  proof cases
    case eq
    then show ?thesis by (simp add: bucket_after_get)
  next
    case over
    have "len (trim ks (len ?m - b) ?m) = len ?m - (len ?m - b)"
      using ro assms over by (intro len_trim) simp_all
    with over show ?thesis by (simp add: bucket_after_get Let_def)
  next
    case under
    have "len (fmupd k (newFC k) ?m) \<le> len ?m + 1"
      by (rule len_fmupd_le)
    with under show ?thesis
      by (simp add: bucket_after_get Let_def split: option.split)
  qed
next
  assume run: "populateFrequencyCountersBounded Name NewP h fcs b c = Inr c'"
  then obtain m' where loop: "populate_loop Name NewP fcs 0 b fmempty = Inr m'"
    and c': "c' = fmupd h m' c"
    by (auto simp: populateFrequencyCountersBounded_def split: sum.splits)
  have "len m' \<le> b"
    using populate_loop_len[OF loop] assms by (simp add: len_fmempty)
  with c' show "len (bucket_of c' h) \<le> b"
    by (simp add: bucket_of_fmupd)
qed

theorem bucket_within_bound_witness:
  "(0::int) \<le> 1 \<and>
   range_order (bucket_of (fmupd ''h'' (fmupd ''A'' ''a'' (fmupd ''B'' ''b'' fmempty)) fmempty) ''h'')
     [''B'', ''A''] \<and>
   len (bucket_of (snd (getFrequencyCounterBounded id [''B'', ''A''] ''h'' ''C'' 1
     (fmupd ''h'' (fmupd ''A'' ''a'' (fmupd ''B'' ''b'' fmempty)) fmempty))) ''h'') \<le> 1 \<and>
   populateFrequencyCountersBounded id id ''h'' [Some ''x'', Some ''y''] 1
     (fmupd ''h'' (fmupd ''A'' ''a'' (fmupd ''B'' ''b'' fmempty)) fmempty) =
     Inr (fmupd ''h'' (fmupd ''x'' ''x'' fmempty) fmempty) \<and>
   len (bucket_of (fmupd ''h'' (fmupd ''x'' ''x'' fmempty) fmempty) ''h'') \<le> (1::int)"
proof -
  have ro: "range_order
      (bucket_of (fmupd ''h'' (fmupd ''A'' ''a'' (fmupd ''B'' ''b'' fmempty)) fmempty) ''h'')
      [''B'', ''A'']"
    by (auto simp: range_order_def bucket_of_def)
  have run: "populateFrequencyCountersBounded id id ''h'' [Some ''x'', Some ''y''] 1
      (fmupd ''h'' (fmupd ''A'' ''a'' (fmupd ''B'' ''b'' fmempty)) fmempty) =
      Inr (fmupd ''h'' (fmupd ''x'' ''x'' fmempty) fmempty)"
    by (simp add: populateFrequencyCountersBounded_def)
  show ?thesis
    using ro run
      bucket_within_bound [of 1
        "fmupd ''h'' (fmupd ''A'' ''a'' (fmupd ''B'' ''b'' fmempty)) fmempty" "''h''"
        "[''B'', ''A'']" id "''C''" id id "[Some ''x'', Some ''y'']"
        "fmupd ''h'' (fmupd ''x'' ''x'' fmempty) fmempty"]
    by simp
qed

text \<open>
  Claim C1 as stated ranges over every bound. The bound is a Go \<open>int\<close>, and a bucket
  cannot hold fewer than zero counters: on the empty cache, a lookup with bound \<open>-1\<close>
  leaves a bucket of size 0, which is not at most \<open>-1\<close>.
\<close>

theorem negative_bound_counterexample:
  "range_order (bucket_of (init_cache :: string cache) ''h'') [] \<and>
   \<not> len (bucket_of (snd (getFrequencyCounterBounded id [] ''h'' ''A'' (- 1) init_cache)) ''h'')
       \<le> - 1"
  by (simp add: range_order_def bucket_after_get bucket_of_init_cache len_fmempty)

subsection \<open>C2: execution with the plan logged\<close>




text \<open>
  When the plan query succeeds, the statement handed to \<open>Exec\<close> is the one line 24 stored
  in \<open>sqlStatement\<close>, with its \<open>EXPLAIN\<close> prefix.
\<close>

lemma explain_statement_is_executed:
  assumes "enableWithQueryPlan e"
    and "run_query d e (''EXPLAIN '' @ query e) = Some (c, Inr rows)"
    and "scan_rows rows [] = Inr response"
  shows "executed (snd (handleQueryExecution d e)) = [''EXPLAIN '' @ query e]"
proof -
  have "executed (c # cs) = executed cs" for cs
    using assms(2) by (auto simp: run_query_def split: option.splits)
  moreover have "executed (xs @ ys) = executed xs @ executed ys" for xs ys :: "('a, 'b) call list"
    by (induction xs rule: executed.induct) simp_all
  ultimately show ?thesis
    using assms executed_run_exec[OF assms(2), of "''EXPLAIN '' @ query e"]
    by (simp add: handleQueryExecution_def Let_def)
qed

subsection \<open>C3: a field that already has a counter\<close>

text \<open>
  Claim C3, amended. If the bucket already holds a counter for the field and its size is
  at most the bound, \<open>getFrequencyCounterBounded\<close> returns exactly that counter and leaves
  the cache as it was. If the size exceeds a bound \<open>bound \<ge> 0\<close>, the bucket is trimmed
  first and the field's own counter may be among those evicted: the call returns it
  unless the field is one of the first \<open>size - bound\<close> keys the trimming loop visits,
  and nil then.
\<close>

theorem existing_counter_within_bound:
  assumes "fmlookup (bucket_of c h) k = Some x"
  shows "(len (bucket_of c h) \<le> bound \<longrightarrow>
            getFrequencyCounterBounded newFC ks h k bound c = (Some x, c)) \<and>
         (0 \<le> bound \<and> bound < len (bucket_of c h) \<longrightarrow>
            fst (getFrequencyCounterBounded newFC ks h k bound c) =
              (if k \<in> set (take (nat (len (bucket_of c h) - bound)) ks) then None else Some x))"
proof (intro conjI impI)
  assume le: "len (bucket_of c h) \<le> bound"
  from assms obtain m where m: "fmlookup c h = Some m"
    by (cases "fmlookup c h") (simp_all add: bucket_of_def)
  have same: "fmupd h (bucket_of c h) c = c"
    using m by (rule fmupd_bucket_of)
  show "getFrequencyCounterBounded newFC ks h k bound c = (Some x, c)"
    using le assms same by (simp add: getFrequencyCounterBounded_def Let_def)
next
  assume "0 \<le> bound \<and> bound < len (bucket_of c h)"
  then show "fst (getFrequencyCounterBounded newFC ks h k bound c) =
      (if k \<in> set (take (nat (len (bucket_of c h) - bound)) ks) then None else Some x)"
    using assms by (simp add: result_of_get Let_def trim_eq fset_of_list.rep_eq)
qed

theorem existing_counter_within_bound_witness:
  "fmlookup (bucket_of (fmupd ''h'' (fmupd ''A'' ''a'' (fmupd ''B'' ''b'' fmempty)) fmempty) ''h'')
     ''A'' = Some ''a'' \<and>
   len (bucket_of (fmupd ''h'' (fmupd ''A'' ''a'' (fmupd ''B'' ''b'' fmempty)) fmempty) ''h'') = 2 \<and>
   getFrequencyCounterBounded id [''A'', ''B''] ''h'' ''A'' 2
     (fmupd ''h'' (fmupd ''A'' ''a'' (fmupd ''B'' ''b'' fmempty)) fmempty) =
     (Some ''a'', fmupd ''h'' (fmupd ''A'' ''a'' (fmupd ''B'' ''b'' fmempty)) fmempty) \<and>
   fst (getFrequencyCounterBounded id [''B'', ''A''] ''h'' ''A'' 1
     (fmupd ''h'' (fmupd ''A'' ''a'' (fmupd ''B'' ''b'' fmempty)) fmempty)) = Some ''a''"
proof -
  let ?c = "fmupd ''h'' (fmupd ''A'' ''a'' (fmupd ''B'' ''b'' fmempty)) fmempty"
  have look: "fmlookup (bucket_of ?c ''h'') ''A'' = Some ''a''"
    by (simp add: bucket_of_def)
  have size: "len (bucket_of ?c ''h'') = 2"
    by (simp add: bucket_of_def len_def fcard_finsert_if)
  show ?thesis
    using look size
      existing_counter_within_bound [OF look, of 2 id "[''A'', ''B'']"]
      existing_counter_within_bound [OF look, of 1 id "[''B'', ''A'']"]
    by simp
qed

text \<open>
  Claim C3 as stated includes buckets above the bound. A bucket holds counters for \<open>A\<close>
  and \<open>B\<close>, the bound is 1, and the trimming loop visits \<open>A\<close> first: the lookup of
  \<open>A\<close> returns nil.
\<close>

theorem own_counter_evicted_counterexample:
  "fmlookup (bucket_of (fmupd ''h'' (fmupd ''A'' ''a'' (fmupd ''B'' ''b'' fmempty)) fmempty) ''h'')
     ''A'' = Some ''a'' \<and>
   range_order (bucket_of (fmupd ''h'' (fmupd ''A'' ''a'' (fmupd ''B'' ''b'' fmempty)) fmempty) ''h'')
     [''A'', ''B''] \<and>
   fst (getFrequencyCounterBounded id [''A'', ''B''] ''h'' ''A'' 1
     (fmupd ''h'' (fmupd ''A'' ''a'' (fmupd ''B'' ''b'' fmempty)) fmempty)) = None"
  by (auto simp: getFrequencyCounterBounded_def Let_def bucket_of_def range_order_def len_def
      fcard_finsert_if)

subsection \<open>C4: trimming a bucket above the bound\<close>

text \<open>
  Claim C4, amended. Called on a bucket whose size is strictly greater than a bound
  \<open>bound \<ge> 0\<close>, \<open>getFrequencyCounterBounded\<close> deletes exactly \<open>size - bound\<close> entries,
  the first that many keys of the order the loop takes, all of them keys of the bucket;
  the bucket holds exactly \<open>bound\<close> entries afterwards, and the call returns what the
  trimmed bucket holds for the field.
\<close>

theorem trim_when_over_bound:
  assumes "range_order (bucket_of c h) ks" and "0 \<le> bound" and "bound < len (bucket_of c h)"
  shows "bucket_of (snd (getFrequencyCounterBounded newFC ks h k bound c)) h =
           fmdrop_fset (fset_of_list (take (nat (len (bucket_of c h) - bound)) ks)) (bucket_of c h) \<and>
         fset_of_list (take (nat (len (bucket_of c h) - bound)) ks) |\<subseteq>| fmdom (bucket_of c h) \<and>
         int (fcard (fset_of_list (take (nat (len (bucket_of c h) - bound)) ks))) =
           len (bucket_of c h) - bound \<and>
         len (bucket_of (snd (getFrequencyCounterBounded newFC ks h k bound c)) h) = bound \<and>
         fst (getFrequencyCounterBounded newFC ks h k bound c) =
           fmlookup (bucket_of (snd (getFrequencyCounterBounded newFC ks h k bound c)) h) k"
proof -
  let ?m = "bucket_of c h"
  let ?n = "len ?m - bound"
  have after: "bucket_of (snd (getFrequencyCounterBounded newFC ks h k bound c)) h = trim ks ?n ?m"
    using assms(3) by (simp add: bucket_after_get Let_def)
  have res: "fst (getFrequencyCounterBounded newFC ks h k bound c) = fmlookup (trim ks ?n ?m) k"
    using assms(3) by (simp add: result_of_get Let_def)
  have short: "nat ?n \<le> length ks"
    using range_order_length[OF assms(1)] assms(2) by simp
  have card: "int (fcard (fset_of_list (take (nat ?n) ks))) = ?n"
    using fcard_take[OF _ short] assms(1,3) by (simp add: range_order_def)
  have size: "len (trim ks ?n ?m) = bound"
    using len_trim[OF assms(1), of ?n] assms(2,3) by simp
  show ?thesis
    using after res card size take_fsubset[OF assms(1)] by (simp add: trim_eq)
qed

theorem trim_when_over_bound_witness:
  "range_order (bucket_of (fmupd ''h'' (fmupd ''A'' ''a'' (fmupd ''B'' ''b'' fmempty)) fmempty) ''h'')
     [''B'', ''A''] \<and>
   (0::int) \<le> 1 \<and>
   1 < len (bucket_of (fmupd ''h'' (fmupd ''A'' ''a'' (fmupd ''B'' ''b'' fmempty)) fmempty) ''h'') \<and>
   len (bucket_of (snd (getFrequencyCounterBounded id [''B'', ''A''] ''h'' ''A'' 1
     (fmupd ''h'' (fmupd ''A'' ''a'' (fmupd ''B'' ''b'' fmempty)) fmempty))) ''h'') = 1 \<and>
   fst (getFrequencyCounterBounded id [''B'', ''A''] ''h'' ''A'' 1
     (fmupd ''h'' (fmupd ''A'' ''a'' (fmupd ''B'' ''b'' fmempty)) fmempty)) =
     fmlookup (bucket_of (snd (getFrequencyCounterBounded id [''B'', ''A''] ''h'' ''A'' 1
       (fmupd ''h'' (fmupd ''A'' ''a'' (fmupd ''B'' ''b'' fmempty)) fmempty))) ''h'') ''A''"
proof -
  let ?c = "fmupd ''h'' (fmupd ''A'' ''a'' (fmupd ''B'' ''b'' fmempty)) fmempty"
  have b: "bucket_of ?c ''h'' = fmupd ''A'' ''a'' (fmupd ''B'' ''b'' fmempty)"
    by (simp add: bucket_of_def)
  have ro: "range_order (bucket_of ?c ''h'') [''B'', ''A'']"
    by (auto simp: range_order_def b)
  have nonneg: "(0::int) \<le> 1"
    by simp
  have over: "1 < len (bucket_of ?c ''h'')"
    by (simp add: b len_def fcard_finsert_if)
  show ?thesis
    using ro nonneg over trim_when_over_bound [OF ro nonneg over, of id "''A''"]
    by blast
qed

text \<open>
  Claim C4 as stated covers every bound below the size. With bound \<open>-1\<close> and a bucket
  of one counter, the size is above the bound, and the bucket is left with 0 entries, not
  with \<open>-1\<close>.
\<close>

theorem negative_bound_trim_counterexample:
  "range_order (bucket_of (fmupd ''h'' (fmupd ''A'' ''a'' fmempty) fmempty) ''h'') [''A''] \<and>
   - 1 < len (bucket_of (fmupd ''h'' (fmupd ''A'' ''a'' fmempty) fmempty) ''h'') \<and>
   len (bucket_of (snd (getFrequencyCounterBounded id [''A''] ''h'' ''A'' (- 1)
     (fmupd ''h'' (fmupd ''A'' ''a'' fmempty) fmempty))) ''h'') = 0 \<and>
   len (bucket_of (snd (getFrequencyCounterBounded id [''A''] ''h'' ''A'' (- 1)
     (fmupd ''h'' (fmupd ''A'' ''a'' fmempty) fmempty))) ''h'') \<noteq> - 1"
  by (auto simp: getFrequencyCounterBounded_def Let_def bucket_of_def range_order_def len_def
      fcard_finsert_if)

subsection \<open>C5: a bucket exactly at the bound\<close>

text \<open>
  Claim C5. Called on a bucket whose size equals the bound, \<open>getFrequencyCounterBounded\<close>
  returns what the bucket holds for the field, a counter or nil, and the bucket is
  afterwards what it was; a cache that held the bucket is unchanged as a whole.
\<close>

theorem get_at_bound:
  assumes "len (bucket_of c h) = bound"
  shows "fst (getFrequencyCounterBounded newFC ks h k bound c) = fmlookup (bucket_of c h) k \<and>
         bucket_of (snd (getFrequencyCounterBounded newFC ks h k bound c)) h = bucket_of c h \<and>
         (h |\<in>| fmdom c \<longrightarrow> snd (getFrequencyCounterBounded newFC ks h k bound c) = c)"
proof -
  have "fmupd h (bucket_of c h) c = c" if "h |\<in>| fmdom c"
    using that by (auto intro: fmupd_bucket_of)
  then show ?thesis
    using assms by (simp add: getFrequencyCounterBounded_def Let_def bucket_of_fmupd)
qed

theorem get_at_bound_witness:
  "len (bucket_of (fmupd ''h'' (fmupd ''A'' ''a'' fmempty) fmempty) ''h'') = 1 \<and>
   ''h'' |\<in>| fmdom (fmupd ''h'' (fmupd ''A'' ''a'' fmempty) fmempty) \<and>
   getFrequencyCounterBounded id [] ''h'' ''B'' 1 (fmupd ''h'' (fmupd ''A'' ''a'' fmempty) fmempty) =
     (None, fmupd ''h'' (fmupd ''A'' ''a'' fmempty) fmempty) \<and>
   getFrequencyCounterBounded id [] ''h'' ''A'' 1 (fmupd ''h'' (fmupd ''A'' ''a'' fmempty) fmempty) =
     (Some ''a'', fmupd ''h'' (fmupd ''A'' ''a'' fmempty) fmempty)"
proof -
  let ?c = "fmupd ''h'' (fmupd ''A'' ''a'' fmempty) (fmempty :: string cache)"
  have b: "bucket_of ?c ''h'' = fmupd ''A'' ''a'' fmempty"
    by (simp add: bucket_of_def)
  have size: "len (bucket_of ?c ''h'') = 1"
    by (simp add: b len_def fcard_finsert_if)
  have held: "''h'' |\<in>| fmdom ?c"
    by simp
  show ?thesis
    using size held
      get_at_bound [OF size, of id "[]" "''B''"] get_at_bound [OF size, of id "[]" "''A''"]
    by (simp add: b prod_eq_iff)
qed

subsection \<open>C6: reload replaces the bucket\<close>

text \<open>
  Claim C6. Given a slice whose first \<open>bound\<close> elements are the counters \<open>xs\<close>,
  \<open>populateFrequencyCountersBounded\<close> returns, and stores under the schema hash the
  bucket built from \<open>xs\<close> alone, each counter wrapped by the persisted-counter
  constructor: its keys are the names of those counters, each of its values is the
  wrapped copy of one of them, nothing of the old bucket is kept, and the other buckets
  are untouched.
\<close>

theorem populate_replaces_bucket:
  assumes "take (nat bound) fcs = map Some xs"
  shows "populateFrequencyCountersBounded Name NewP h fcs bound c =
           Inr (fmupd h (bucket_from_persisted Name NewP xs) c) \<and>
         fmdom (bucket_from_persisted Name NewP xs) = fset_of_list (map Name xs) \<and>
         (\<forall>k v. fmlookup (bucket_from_persisted Name NewP xs) k = Some v \<longrightarrow>
            (\<exists>fc \<in> set xs. Name fc = k \<and> v = NewP fc)) \<and>
         (\<forall>h'. h' \<noteq> h \<longrightarrow>
            fmlookup (fmupd h (bucket_from_persisted Name NewP xs) c) h' = fmlookup c h')"
proof (intro conjI allI impI)
  show "populateFrequencyCountersBounded Name NewP h fcs bound c =
      Inr (fmupd h (bucket_from_persisted Name NewP xs) c)"
    using populate_loop_fold[of bound 0 fcs xs Name NewP fmempty] assms
    by (simp add: populateFrequencyCountersBounded_def bucket_from_persisted_def)
next
  show "fmdom (bucket_from_persisted Name NewP xs) = fset_of_list (map Name xs)"
    by (rule bucket_from_persisted_dom)
next
  fix k v
  assume "fmlookup (bucket_from_persisted Name NewP xs) k = Some v"
  then show "\<exists>fc \<in> set xs. Name fc = k \<and> v = NewP fc"
    by (rule bucket_from_persisted_value)
next
  fix h'
  assume "h' \<noteq> h"
  then show "fmlookup (fmupd h (bucket_from_persisted Name NewP xs) c) h' = fmlookup c h'"
    by simp
qed

theorem populate_replaces_bucket_witness:
  "take (nat 3) [Some ''x'', Some ''y'', Some ''x'', None] = map Some [''x'', ''y'', ''x''] \<and>
   populateFrequencyCountersBounded id id ''h'' [Some ''x'', Some ''y'', Some ''x'', None] 3
     (fmupd ''g'' (fmupd ''B'' ''b'' fmempty) (fmupd ''h'' (fmupd ''A'' ''a'' fmempty) fmempty)) =
     Inr (fmupd ''h'' (fmupd ''x'' ''x'' (fmupd ''y'' ''y'' fmempty))
       (fmupd ''g'' (fmupd ''B'' ''b'' fmempty) (fmupd ''h'' (fmupd ''A'' ''a'' fmempty) fmempty)))"
proof -
  have cut: "take (nat 3) [Some ''x'', Some ''y'', Some ''x'', None] = map Some [''x'', ''y'', ''x'']"
    by simp
  have b: "bucket_from_persisted id id [''x'', ''y'', ''x''] =
      fmupd ''x'' ''x'' (fmupd ''y'' ''y'' fmempty)"
    by (simp add: bucket_from_persisted_def fmupd_reorder_neq)
  show ?thesis
    using cut populate_replaces_bucket [OF cut, of id id "''h''"
        "fmupd ''g'' (fmupd ''B'' ''b'' fmempty) (fmupd ''h'' (fmupd ''A'' ''a'' fmempty) fmempty)"]
    by (simp only: b)
qed

subsection \<open>C7: reportable counters\<close>

text \<open>
  Claim C7. Whatever order the loop takes over the bucket, \<open>getSchemaVersionCounters\<close>
  maps a field to the capped items of its counter when the counter yields at least one
  entry, and omits it otherwise. Every reported frequency is at most 1, a frequency
  above 1 being replaced by exactly 1, and it is at least 0 when \<open>ItemsAboveThreshold\<close>
  yields only entries above a threshold in (0,1).
\<close>

theorem reportable_items:
  assumes "range_order (bucket_of c h) ks"
  shows "fmlookup (getSchemaVersionCounters IAT ks h c) key =
           (case fmlookup (bucket_of c h) key of
              None \<Rightarrow> None
            | Some fc \<Rightarrow> if IAT fc = [] then None else Some (map capped (IAT fc))) \<and>
         (\<forall>items. fmlookup (getSchemaVersionCounters IAT ks h c) key = Some items \<longrightarrow>
            items \<noteq> [] \<and>
            (\<forall>item \<in> set items. CounterItem.Frequency item \<le> 1) \<and>
            (above_threshold threshold IAT \<longrightarrow>
               (\<forall>item \<in> set items. 0 \<le> CounterItem.Frequency item))) \<and>
         (\<forall>entry. CounterItem.Frequency (capped entry) =
            (if Entry.Frequency entry > 1 then 1 else Entry.Frequency entry))"
proof -
  have mem: "key \<in> set ks \<longleftrightarrow> key |\<in>| fmdom (bucket_of c h)"
    using assms by (metis range_order_def fset_of_list.rep_eq)
  have look: "fmlookup (getSchemaVersionCounters IAT ks h c) key =
      (case fmlookup (bucket_of c h) key of
         None \<Rightarrow> None
       | Some fc \<Rightarrow> if IAT fc = [] then None else Some (map capped (IAT fc)))"
    using mem
    by (auto simp: getSchemaVersionCounters_def schema_version_counters_loop_lookup
        split: option.split)
  have items: "items \<noteq> [] \<and>
      (\<forall>item \<in> set items. CounterItem.Frequency item \<le> 1) \<and>
      (above_threshold threshold IAT \<longrightarrow>
         (\<forall>item \<in> set items. 0 \<le> CounterItem.Frequency item))"
    if "fmlookup (getSchemaVersionCounters IAT ks h c) key = Some items" for items
  proof -
    from that look obtain fc where "items = map capped (IAT fc)" and "IAT fc \<noteq> []"
      by (auto split: option.splits if_splits)
    moreover have "0 \<le> Entry.Frequency e"
      if "above_threshold threshold IAT" and "e \<in> set (IAT fc)" for e
    proof -
      from that have "threshold < Entry.Frequency e" and "0 < threshold"
        by (auto simp: above_threshold_def list_all_iff)
      then show ?thesis by simp
    qed
    ultimately show ?thesis
      by (auto simp: capped_Frequency)
  qed
  have cap: "CounterItem.Frequency (capped entry) =
      (if Entry.Frequency entry > 1 then 1 else Entry.Frequency entry)" for entry
    by (simp add: capped_def min_def)
  show ?thesis
    using look items cap by blast
qed

theorem reportable_items_witness:
  "range_order (bucket_of (fmupd ''h'' (fmupd ''A'' True (fmupd ''B'' False fmempty)) fmempty) ''h'')
     [''B'', ''A''] \<and>
   above_threshold (1 / 10) busy_or_quiet \<and>
   fmlookup (getSchemaVersionCounters busy_or_quiet [''B'', ''A''] ''h''
       (fmupd ''h'' (fmupd ''A'' True (fmupd ''B'' False fmempty)) fmempty)) ''A'' =
     Some [\<lparr>Value = ''v'', Frequency = 1\<rparr>, \<lparr>Value = ''w'', Frequency = 1 / 4\<rparr>] \<and>
   fmlookup (getSchemaVersionCounters busy_or_quiet [''B'', ''A''] ''h''
       (fmupd ''h'' (fmupd ''A'' True (fmupd ''B'' False fmempty)) fmempty)) ''B'' = None"
proof -
  let ?c = "fmupd ''h'' (fmupd ''A'' True (fmupd ''B'' False fmempty)) fmempty"
  have b: "bucket_of ?c ''h'' = fmupd ''A'' True (fmupd ''B'' False fmempty)"
    by (simp add: bucket_of_def)
  have ro: "range_order (bucket_of ?c ''h'') [''B'', ''A'']"
    by (auto simp: range_order_def b)
  have above: "above_threshold (1 / 10) busy_or_quiet"
    by (simp add: above_threshold_def busy_or_quiet_def)
  show ?thesis
    using ro above
      reportable_items [OF ro, of busy_or_quiet "''A''" "1 / 10"]
      reportable_items [OF ro, of busy_or_quiet "''B''" "1 / 10"]
    by (simp add: b capped_def busy_or_quiet_def)
qed

subsection \<open>C8: four fields under bound three, then bound two\<close>

text \<open>
  Claim C8. On a schema hash without a bucket, lookups of \<open>A\<close>, \<open>B\<close>, \<open>C\<close> and \<open>D\<close>
  with bound 3 create counters for \<open>A\<close>, \<open>B\<close> and \<open>C\<close> and return nil for \<open>D\<close>; the
  bucket then tracks exactly those three fields. A further lookup of any field with
  bound 2 leaves exactly 2 entries, whatever order the trimming loop takes.
\<close>

theorem scenario_four_fields_bound_three:
  assumes "fmlookup c h = None"
  shows "(let (rA, c1) = getFrequencyCounterBounded newFC ks1 h ''A'' 3 c;
              (rB, c2) = getFrequencyCounterBounded newFC ks2 h ''B'' 3 c1;
              (rC, c3) = getFrequencyCounterBounded newFC ks3 h ''C'' 3 c2;
              (rD, c4) = getFrequencyCounterBounded newFC ks4 h ''D'' 3 c3
          in rA = Some (newFC ''A'') \<and> rB = Some (newFC ''B'') \<and> rC = Some (newFC ''C'') \<and>
             rD = None \<and>
             bucket_of c4 h =
               fmupd ''C'' (newFC ''C'') (fmupd ''B'' (newFC ''B'') (fmupd ''A'' (newFC ''A'') fmempty)) \<and>
             fmdom (bucket_of c4 h) = {|''A'', ''B'', ''C''|} \<and>
             len (bucket_of c4 h) = 3 \<and>
             (range_order (bucket_of c4 h) ks5 \<longrightarrow>
                len (bucket_of (snd (getFrequencyCounterBounded newFC ks5 h k 2 c4)) h) = 2))"
proof -
  let ?bA = "fmupd ''A'' (newFC ''A'') fmempty"
  let ?bB = "fmupd ''B'' (newFC ''B'') ?bA"
  let ?bC = "fmupd ''C'' (newFC ''C'') ?bB"
  have lA: "len ?bA = 1" and lB: "len ?bB = 2" and lC: "len ?bC = 3"
    by (simp_all add: len_def fcard_finsert_if)
  have c0: "bucket_of c h = fmempty"
    using assms by (simp add: bucket_of_def)
  have gA: "getFrequencyCounterBounded newFC ks1 h ''A'' 3 c = (Some (newFC ''A''), fmupd h ?bA c)"
    by (simp add: getFrequencyCounterBounded_def Let_def c0 len_fmempty)
  have gB: "getFrequencyCounterBounded newFC ks2 h ''B'' 3 (fmupd h ?bA c) =
      (Some (newFC ''B''), fmupd h ?bB c)"
    by (simp add: getFrequencyCounterBounded_def Let_def bucket_of_fmupd lA)
  have gC: "getFrequencyCounterBounded newFC ks3 h ''C'' 3 (fmupd h ?bB c) =
      (Some (newFC ''C''), fmupd h ?bC c)"
    by (simp add: getFrequencyCounterBounded_def Let_def bucket_of_fmupd lB)
  have gD: "getFrequencyCounterBounded newFC ks4 h ''D'' 3 (fmupd h ?bC c) = (None, fmupd h ?bC c)"
    by (simp add: getFrequencyCounterBounded_def Let_def bucket_of_fmupd lC)
  have dom: "{|''C'', ''B'', ''A''|} = {|''A'', ''B'', ''C''|}"
    by auto
  have last: "len (bucket_of (snd (getFrequencyCounterBounded newFC ks5 h k 2 (fmupd h ?bC c))) h) = 2"
    if ro: "range_order ?bC ks5"
  proof -
    have "len (trim ks5 (len ?bC - 2) ?bC) = len ?bC - (len ?bC - 2)"
      using ro by (intro len_trim) (simp_all add: lC)
    then show ?thesis
      by (simp add: bucket_after_get bucket_of_fmupd lC)
  qed
  show ?thesis
    using last by (simp add: gA gB gC gD bucket_of_fmupd lC dom)
qed

theorem scenario_four_fields_bound_three_witness:
  "fmlookup (init_cache :: string cache) ''h'' = None \<and>
   fst (getFrequencyCounterBounded id [] ''h'' ''D'' 3
     (snd (getFrequencyCounterBounded id [] ''h'' ''C'' 3
       (snd (getFrequencyCounterBounded id [] ''h'' ''B'' 3
         (snd (getFrequencyCounterBounded id [] ''h'' ''A'' 3 init_cache))))))) = None \<and>
   range_order (fmupd ''C'' ''C'' (fmupd ''B'' ''B'' (fmupd ''A'' ''A'' fmempty))) [''B'', ''C'', ''A''] \<and>
   len (bucket_of (snd (getFrequencyCounterBounded id [''B'', ''C'', ''A''] ''h'' ''E'' 2
     (snd (getFrequencyCounterBounded id [] ''h'' ''D'' 3
       (snd (getFrequencyCounterBounded id [] ''h'' ''C'' 3
         (snd (getFrequencyCounterBounded id [] ''h'' ''B'' 3
           (snd (getFrequencyCounterBounded id [] ''h'' ''A'' 3 init_cache)))))))))) ''h'') = 2"
proof -
  have none: "fmlookup (init_cache :: string cache) ''h'' = None"
    by (simp add: init_cache_def)
  have ro: "range_order (fmupd ''C'' ''C'' (fmupd ''B'' ''B'' (fmupd ''A'' ''A'' fmempty)))
      [''B'', ''C'', ''A'']"
    by (auto simp: range_order_def)
  show ?thesis
    using none ro
      scenario_four_fields_bound_three [OF none, of id "[]" "[]" "[]" "[]" "[''B'', ''C'', ''A'']" "''E''"]
    by (simp add: Let_def split_beta)
qed

subsection \<open>C9: the other buckets\<close>

text \<open>
  Claim C9. A call of \<open>getFrequencyCounterBounded\<close> leaves the bucket of every other
  schema hash as it was, and afterwards the cache holds a bucket for the schema hash of
  the call. On a hash without a bucket and with bound 0 the call stores an empty bucket
  and returns nil.
\<close>

theorem get_frame:
  "(\<forall>h'. h' \<noteq> h \<longrightarrow>
      fmlookup (snd (getFrequencyCounterBounded newFC ks h k bound c)) h' = fmlookup c h') \<and>
   h |\<in>| fmdom (snd (getFrequencyCounterBounded newFC ks h k bound c)) \<and>
   (fmlookup c h = None \<and> bound = 0 \<longrightarrow>
      getFrequencyCounterBounded newFC ks h k bound c = (None, fmupd h fmempty c))"
  by (simp add: getFrequencyCounterBounded_def Let_def bucket_of_def len_fmempty
      split: option.split)

theorem get_frame_witness:
  "''g'' \<noteq> ''h'' \<and>
   fmlookup (snd (getFrequencyCounterBounded id [] ''h'' ''A'' 0
     (fmupd ''g'' (fmupd ''B'' ''b'' fmempty) fmempty))) ''g'' = Some (fmupd ''B'' ''b'' fmempty) \<and>
   ''h'' |\<in>| fmdom (snd (getFrequencyCounterBounded id [] ''h'' ''A'' 0
     (fmupd ''g'' (fmupd ''B'' ''b'' fmempty) fmempty))) \<and>
   getFrequencyCounterBounded id [] ''h'' ''A'' 0 (fmupd ''g'' (fmupd ''B'' ''b'' fmempty) fmempty) =
     (None, fmupd ''h'' fmempty (fmupd ''g'' (fmupd ''B'' ''b'' fmempty) fmempty))"
proof -
  have ne: "''g'' \<noteq> ''h''"
    by simp
  have absent: "fmlookup (fmupd ''g'' (fmupd ''B'' ''b'' fmempty) (fmempty :: string cache)) ''h'' = None"
    by simp
  show ?thesis
    using ne absent
      get_frame [of "''h''" id "[]" "''A''" 0 "fmupd ''g'' (fmupd ''B'' ''b'' fmempty) fmempty"]
    by simp
qed

subsection \<open>C10: no handle at all\<close>

text \<open>
  Claim C10. If both the transaction handle and the pooled handle are nil,
  \<open>handleQueryExecution\<close> returns a nil result and a non-nil error, for every query and
  either value of the flag, and makes no call to the database.
\<close>

theorem both_handles_nil:
  assumes "txn e = None" and "db e = None"
  shows "fst (fst (handleQueryExecution d e)) = None \<and>
         snd (fst (handleQueryExecution d e)) =
           Some (BothNil (if enableWithQueryPlan e then ''EXPLAIN '' @ query e else query e)) \<and>
         snd (fst (handleQueryExecution d e)) \<noteq> None \<and>
         snd (handleQueryExecution d e) = []"
  using assms
  by (simp add: handleQueryExecution_def run_exec_both_nil run_query_both_nil Let_def)

theorem both_handles_nil_witness:
  "txn \<lparr>txn = (None :: nat option), db = (None :: nat option), query = ''SELECT 1'',
      enableWithQueryPlan = True\<rparr> = None \<and>
   db \<lparr>txn = (None :: nat option), db = (None :: nat option), query = ''SELECT 1'',
      enableWithQueryPlan = True\<rparr> = None \<and>
   handleQueryExecution explain_rejected
     \<lparr>txn = None, db = None, query = ''SELECT 1'', enableWithQueryPlan = True\<rparr> =
     ((None, Some (BothNil ''EXPLAIN SELECT 1'')), [])"
proof -
  let ?e = "\<lparr>txn = (None :: nat option), db = (None :: nat option), query = ''SELECT 1'',
      enableWithQueryPlan = True\<rparr>"
  have t: "txn ?e = None" and p: "db ?e = None"
    by simp_all
  show ?thesis
    using t p both_handles_nil [OF t p, of explain_rejected]
    by (simp add: prod_eq_iff)
qed

end
